theory Spec2Isabelle
  imports Main "HOL-Library.Word"
begin

section \<open>GentleOwnership: the single-owner cell\<close>

text \<open>
  \<^verbatim>\<open>GentleOwnership<T>\<close> holds a \<^verbatim>\<open>std::unique_ptr<T> data_\<close> (here \<open>cell_data\<close>) and a
  \<^verbatim>\<open>std::string owner_name_\<close>. The pointer is either null or owns one value, so it is
  an option. Every member function takes the mutex for its whole body, so each call is one
  atomic step on the record. The three \<^verbatim>\<open>throw std::runtime_error(...)\<close> sites differ
  only in their message; the message is kept as a tag. Console output of
  \<^verbatim>\<open>transfer_with_care\<close> is not part of the state and is left out.
\<close>

record 'a GentleOwnership =
  cell_data :: "'a option"
  owner_name :: string

datatype transfer_message = CannotAccess | CannotModify | AlreadyGivenAway

datatype cell_error = UseAfterTransfer transfer_message

definition GentleOwnership_new :: "'a \<Rightarrow> string \<Rightarrow> 'a GentleOwnership" where
  "GentleOwnership_new v owner = \<lparr>cell_data = Some v, owner_name = owner\<rparr>"

text \<open>
  Both borrows call \<^verbatim>\<open>func(*data_)\<close>. Dereferencing a \<^verbatim>\<open>unique_ptr<T>\<close> yields a \<^verbatim>\<open>T&\<close>
  also inside the const member function \<^verbatim>\<open>borrow_gently\<close>, so in both the callback may
  write the value: it returns its result together with the value it leaves behind.
\<close>

definition borrow_gently ::
  "('a \<Rightarrow> 'r \<times> 'a) \<Rightarrow> 'a GentleOwnership \<Rightarrow> cell_error + ('r \<times> 'a GentleOwnership)" where
  "borrow_gently func c =
     (case cell_data c of
        None \<Rightarrow> Inl (UseAfterTransfer CannotAccess)
      | Some v \<Rightarrow> (case func v of (r, v') \<Rightarrow> Inr (r, c\<lparr>cell_data := Some v'\<rparr>)))"

definition borrow_mutably ::
  "('a \<Rightarrow> 'r \<times> 'a) \<Rightarrow> 'a GentleOwnership \<Rightarrow> cell_error + ('r \<times> 'a GentleOwnership)" where
  "borrow_mutably func c =
     (case cell_data c of
        None \<Rightarrow> Inl (UseAfterTransfer CannotModify)
      | Some v \<Rightarrow> (case func v of (r, v') \<Rightarrow> Inr (r, c\<lparr>cell_data := Some v'\<rparr>)))"

definition transfer_with_care ::
  "string \<Rightarrow> 'a GentleOwnership \<Rightarrow> cell_error + ('a \<times> 'a GentleOwnership)" where
  "transfer_with_care new_owner c =
     (case cell_data c of
        None \<Rightarrow> Inl (UseAfterTransfer AlreadyGivenAway)
      | Some v \<Rightarrow> Inr (v, c\<lparr>owner_name := new_owner, cell_data := None\<rparr>))"

definition is_available :: "'a GentleOwnership \<Rightarrow> bool" where
  "is_available c = (cell_data c \<noteq> None)"

definition current_owner :: "'a GentleOwnership \<Rightarrow> string" where
  "current_owner c = owner_name c"

text \<open>
  A caller's view of the cell: any sequence of the five public member functions. A call
  that throws leaves the cell as it was.
\<close>

datatype ('a, 'r) cell_request =
    BorrowGently "'a \<Rightarrow> 'r \<times> 'a"
  | BorrowMutably "'a \<Rightarrow> 'r \<times> 'a"
  | TransferWithCare string
  | IsAvailable
  | CurrentOwner

datatype ('a, 'r) cell_reply =
    Thrown cell_error
  | Borrowed 'r
  | Handed 'a
  | Available bool
  | OwnerIs string

fun cell_call ::
  "('a, 'r) cell_request \<Rightarrow> 'a GentleOwnership \<Rightarrow> ('a, 'r) cell_reply \<times> 'a GentleOwnership" where
  "cell_call (BorrowGently f) c =
     (case borrow_gently f c of Inl e \<Rightarrow> (Thrown e, c) | Inr (r, c') \<Rightarrow> (Borrowed r, c'))"
| "cell_call (BorrowMutably f) c =
     (case borrow_mutably f c of Inl e \<Rightarrow> (Thrown e, c) | Inr (r, c') \<Rightarrow> (Borrowed r, c'))"
| "cell_call (TransferWithCare n) c =
     (case transfer_with_care n c of Inl e \<Rightarrow> (Thrown e, c) | Inr (v, c') \<Rightarrow> (Handed v, c'))"
| "cell_call IsAvailable c = (Available (is_available c), c)"
| "cell_call CurrentOwner c = (OwnerIs (current_owner c), c)"

fun cell_calls ::
  "('a, 'r) cell_request list \<Rightarrow> 'a GentleOwnership
     \<Rightarrow> ('a, 'r) cell_reply list \<times> 'a GentleOwnership" where
  "cell_calls [] c = ([], c)"
| "cell_calls (x # xs) c =
     (case cell_call x c of (r, c') \<Rightarrow>
        (case cell_calls xs c' of (rs, c'') \<Rightarrow> (r # rs, c'')))"

fun touches_value :: "('a, 'r) cell_request \<Rightarrow> bool" where
  "touches_value (BorrowGently f) = True"
| "touches_value (BorrowMutably f) = True"
| "touches_value (TransferWithCare n) = True"
| "touches_value IsAvailable = False"
| "touches_value CurrentOwner = False"

fun is_use_after_transfer :: "('a, 'r) cell_reply \<Rightarrow> bool" where
  "is_use_after_transfer (Thrown (UseAfterTransfer m)) = True"
| "is_use_after_transfer _ = False"

section \<open>GentleChannel: the bounded blocking queue\<close>

text \<open>
  \<^verbatim>\<open>GentleChannel<T>\<close> has a \<^verbatim>\<open>std::queue<T> queue_\<close> (front of the queue is the head of
  the list), the flag \<^verbatim>\<open>closed_\<close> and \<^verbatim>\<open>max_capacity_\<close>. Each member function holds the
  mutex while it reads or writes these fields; \<^verbatim>\<open>cv_.wait(lock, pred)\<close> releases the mutex
  only while \<^verbatim>\<open>pred\<close> is false. A call is therefore one atomic step that either returns or
  leaves the caller waiting with the channel unchanged; a woken waiter re-enters at the
  \<^verbatim>\<open>wait\<close>.
\<close>

record 'a GentleChannel =
  chan_queue :: "'a list"
  chan_closed :: bool
  max_capacity :: nat

definition GentleChannel_new :: "nat \<Rightarrow> 'a GentleChannel" where
  "GentleChannel_new capacity = \<lparr>chan_queue = [], chan_closed = False, max_capacity = capacity\<rparr>"

text \<open>The constructor's default argument: \<^verbatim>\<open>size_t capacity = 100\<close>.\<close>

definition GentleChannel_default :: "'a GentleChannel" where
  "GentleChannel_default = GentleChannel_new 100"

datatype send_status = SendReturns bool | SendWaits

text \<open>
  \<open>send_from_wait\<close> is \<^verbatim>\<open>send_with_care\<close> from the \<^verbatim>\<open>cv_.wait\<close> on: what a sender does
  when it first reaches the wait and each time it is woken.
\<close>

definition send_from_wait :: "'a \<Rightarrow> 'a GentleChannel \<Rightarrow> send_status \<times> 'a GentleChannel" where
  "send_from_wait v ch =
     (if \<not> (chan_closed ch \<or> length (chan_queue ch) < max_capacity ch) then (SendWaits, ch)
      else if chan_closed ch then (SendReturns False, ch)
      else (SendReturns True, ch\<lparr>chan_queue := chan_queue ch @ [v]\<rparr>))"

definition send_with_care :: "'a \<Rightarrow> 'a GentleChannel \<Rightarrow> send_status \<times> 'a GentleChannel" where
  "send_with_care v ch =
     (if chan_closed ch then (SendReturns False, ch) else send_from_wait v ch)"

datatype 'a receive_status = ReceiveReturns "'a option" | ReceiveWaits

definition receive_with_patience :: "'a GentleChannel \<Rightarrow> 'a receive_status \<times> 'a GentleChannel" where
  "receive_with_patience ch =
     (if \<not> (chan_queue ch \<noteq> [] \<or> chan_closed ch) then (ReceiveWaits, ch)
      else (case chan_queue ch of
              [] \<Rightarrow> (ReceiveReturns None, ch)
            | v # rest \<Rightarrow> (ReceiveReturns (Some v), ch\<lparr>chan_queue := rest\<rparr>)))"

definition close_gently :: "'a GentleChannel \<Rightarrow> 'a GentleChannel" where
  "close_gently ch = ch\<lparr>chan_closed := True\<rparr>"

definition is_closed :: "'a GentleChannel \<Rightarrow> bool" where
  "is_closed ch = chan_closed ch"

definition size_of :: "'a GentleChannel \<Rightarrow> nat" where
  "size_of ch = length (chan_queue ch)"

text \<open>
  Any interleaving of concurrent callers is a sequence of such atomic steps. \<open>SendWoken\<close> is
  a sender that was waiting and re-evaluates its wait; a receiver's wait is the first thing
  \<^verbatim>\<open>receive_with_patience\<close> does, so a woken receiver is again \<open>Receive\<close>.
\<close>

datatype 'a chan_event = Send 'a | SendWoken 'a | Receive | Close

datatype 'a chan_reply = Sending send_status | Receiving "'a receive_status" | Closing

fun chan_step :: "'a chan_event \<Rightarrow> 'a GentleChannel \<Rightarrow> 'a chan_reply \<times> 'a GentleChannel" where
  "chan_step (Send v) ch = (case send_with_care v ch of (r, ch') \<Rightarrow> (Sending r, ch'))"
| "chan_step (SendWoken v) ch = (case send_from_wait v ch of (r, ch') \<Rightarrow> (Sending r, ch'))"
| "chan_step Receive ch = (case receive_with_patience ch of (r, ch') \<Rightarrow> (Receiving r, ch'))"
| "chan_step Close ch = (Closing, close_gently ch)"

fun chan_run :: "'a chan_event list \<Rightarrow> 'a GentleChannel \<Rightarrow> 'a chan_reply list \<times> 'a GentleChannel" where
  "chan_run [] ch = ([], ch)"
| "chan_run (e # es) ch =
     (case chan_step e ch of (r, ch') \<Rightarrow>
        (case chan_run es ch' of (rs, ch'') \<Rightarrow> (r # rs, ch'')))"

text \<open>What the receivers got, in order, and what the senders were told.\<close>

fun received :: "'a chan_reply list \<Rightarrow> 'a receive_status list" where
  "received [] = []"
| "received (Receiving r # rs) = r # received rs"
| "received (_ # rs) = received rs"

fun send_replies :: "'a chan_reply list \<Rightarrow> send_status list" where
  "send_replies [] = []"
| "send_replies (Sending r # rs) = r # send_replies rs"
| "send_replies (_ # rs) = send_replies rs"

fun send_all :: "'a list \<Rightarrow> 'a GentleChannel \<Rightarrow> send_status list \<times> 'a GentleChannel" where
  "send_all [] ch = ([], ch)"
| "send_all (v # vs) ch =
     (case send_with_care v ch of (r, ch') \<Rightarrow>
        (case send_all vs ch' of (rs, ch'') \<Rightarrow> (r # rs, ch'')))"

fun receive_count :: "'a chan_event list \<Rightarrow> nat" where
  "receive_count [] = 0"
| "receive_count (Receive # es) = Suc (receive_count es)"
| "receive_count (_ # es) = receive_count es"

text \<open>
  The items a run put into the queue, in the order of the sends that returned true, and
  the items its receives handed out, in the order of the receives.
\<close>

fun enqueued :: "'a chan_event list \<Rightarrow> 'a chan_reply list \<Rightarrow> 'a list" where
  "enqueued (Send v # es) (Sending (SendReturns True) # rs) = v # enqueued es rs"
| "enqueued (SendWoken v # es) (Sending (SendReturns True) # rs) = v # enqueued es rs"
| "enqueued (e # es) (r # rs) = enqueued es rs"
| "enqueued _ _ = []"

fun delivered :: "'a chan_reply list \<Rightarrow> 'a list" where
  "delivered [] = []"
| "delivered (Receiving (ReceiveReturns (Some v)) # rs) = v # delivered rs"
| "delivered (_ # rs) = delivered rs"

section \<open>GentleMemoryPool: the fixed-block allocator\<close>

text \<open>
  \<^verbatim>\<open>pools_\<close> owns the slabs; a slab is known by its base address, an address is a natural
  number. \<^verbatim>\<open>free_blocks_\<close> is a \<^verbatim>\<open>std::vector<void*>\<close> used as a stack: \<^verbatim>\<open>push_back\<close>
  appends, \<^verbatim>\<open>back\<close>/\<^verbatim>\<open>pop_back\<close> read and drop the last element. \<^verbatim>\<open>size_t\<close> is 64 bits
  wide, so the two products the code computes wrap at \<open>2 ^ 64\<close>.

  The base address of a new slab is chosen by the system allocator
  (\<^verbatim>\<open>std::make_unique<std::byte[]>\<close>), not by this code: it is an argument of every
  function that may create a slab.
\<close>

record GentleMemoryPool =
  pools :: "nat list"
  free_blocks :: "nat list"
  block_size :: nat
  blocks_per_pool :: nat

definition slab_bytes :: "GentleMemoryPool \<Rightarrow> nat" where
  "slab_bytes p = (block_size p * blocks_per_pool p) mod 2 ^ 64"

definition block_address :: "GentleMemoryPool \<Rightarrow> nat \<Rightarrow> nat \<Rightarrow> nat" where
  "block_address p base i = base + (i * block_size p) mod 2 ^ 64"

definition allocate_new_pool :: "nat \<Rightarrow> GentleMemoryPool \<Rightarrow> GentleMemoryPool" where
  "allocate_new_pool base p =
     p\<lparr>free_blocks := free_blocks p @ map (block_address p base) [0 ..< blocks_per_pool p],
       pools := pools p @ [base]\<rparr>"

definition GentleMemoryPool_new :: "nat \<Rightarrow> nat \<Rightarrow> nat \<Rightarrow> GentleMemoryPool" where
  "GentleMemoryPool_new bsize initial_blocks base =
     allocate_new_pool base
       \<lparr>pools = [], free_blocks = [], block_size = bsize, blocks_per_pool = initial_blocks\<rparr>"

text \<open>
  \<^verbatim>\<open>free_blocks_.back()\<close> on an empty vector is undefined behaviour; it can only happen
  when a new slab contributed no block. The model returns \<open>None\<close> there.
\<close>

definition allocate_gently :: "nat \<Rightarrow> GentleMemoryPool \<Rightarrow> (nat \<times> GentleMemoryPool) option" where
  "allocate_gently base p =
     (let p1 = (if free_blocks p = [] then allocate_new_pool base p else p)
      in if free_blocks p1 = [] then None
         else Some (last (free_blocks p1), p1\<lparr>free_blocks := butlast (free_blocks p1)\<rparr>))"

definition deallocate_gently :: "nat \<Rightarrow> GentleMemoryPool \<Rightarrow> GentleMemoryPool" where
  "deallocate_gently ptr p = p\<lparr>free_blocks := free_blocks p @ [ptr]\<rparr>"

text \<open>
  A client's history: calls of \<^verbatim>\<open>allocate_gently\<close> (with the base the system allocator
  would hand out if a slab is needed) and of \<^verbatim>\<open>deallocate_gently\<close>. Next to the pool the
  run keeps the list of outstanding addresses: returned by an allocate and not given back
  since.
\<close>

datatype pool_call = Allocate nat | Deallocate nat

fun pool_run ::
  "pool_call list \<Rightarrow> GentleMemoryPool \<times> nat list \<Rightarrow> (GentleMemoryPool \<times> nat list) option" where
  "pool_run [] s = Some s"
| "pool_run (Allocate base # cs) (p, outstanding) =
     (case allocate_gently base p of
        None \<Rightarrow> None
      | Some (a, p') \<Rightarrow> pool_run cs (p', a # outstanding))"
| "pool_run (Deallocate a # cs) (p, outstanding) =
     pool_run cs (deallocate_gently a p, remove1 a outstanding)"

text \<open>
  What the system allocator guarantees: the bytes of a new slab overlap no slab the pool
  still owns (slabs are never released).
\<close>

definition fresh_slab :: "GentleMemoryPool \<Rightarrow> nat \<Rightarrow> bool" where
  "fresh_slab p base =
     (\<forall>b \<in> set (pools p). base + slab_bytes p \<le> b \<or> b + slab_bytes p \<le> base)"

text \<open>
  The discipline asked of the client: only outstanding addresses are given back. A slab
  base offered to an allocate that needs one is fresh.
\<close>

fun disciplined :: "pool_call list \<Rightarrow> GentleMemoryPool \<times> nat list \<Rightarrow> bool" where
  "disciplined [] s = True"
| "disciplined (Allocate base # cs) (p, outstanding) =
     ((free_blocks p = [] \<longrightarrow> fresh_slab p base) \<and>
      (case allocate_gently base p of
         None \<Rightarrow> True
       | Some (a, p') \<Rightarrow> disciplined cs (p', a # outstanding)))"
| "disciplined (Deallocate a # cs) (p, outstanding) =
     (a \<in> set outstanding \<and> disciplined cs (deallocate_gently a p, remove1 a outstanding))"

text \<open>
  The invariant behind the distinctness of outstanding addresses, for a pool built with
  block size \<open>bs\<close> and \<open>n\<close> blocks per slab: no address occurs twice among the free and the
  outstanding ones, and each of them is a block of a slab the pool owns.
\<close>

definition pool_inv :: "nat \<Rightarrow> nat \<Rightarrow> GentleMemoryPool \<times> nat list \<Rightarrow> bool" where
  "pool_inv bs n s =
     (case s of (p, outstanding) \<Rightarrow>
        block_size p = bs \<and> blocks_per_pool p = n
      \<and> distinct (free_blocks p @ outstanding)
      \<and> (\<forall>a \<in> set (free_blocks p @ outstanding).
            \<exists>b \<in> set (pools p). b \<le> a \<and> a < b + bs * n))"

section \<open>GentleTask: the coroutine wrapper\<close>

text \<open>
  A \<^verbatim>\<open>GentleTask\<close> owns a \<^verbatim>\<open>std::coroutine_handle<promise_type>\<close> and a name (the creation
  time stamp is never read and is left out). What a suspended coroutine will do is not in
  this code but in the body the caller wrote; \<open>coro\<close> describes that body from its current
  suspension point: it runs to its end, or to the next suspension point, or an exception
  leaves the body.

  \<^verbatim>\<open>promise_type::final_suspend\<close> returns \<^verbatim>\<open>std::suspend_never\<close>: a coroutine whose body has
  ended does not stop at a final suspension point, its frame is destroyed at once. The
  handle kept in the task is not told; it dangles. So a handle is null (\<open>None\<close>), or refers
  to a frame suspended inside the body, or dangles. No handle ever refers to a frame at
  its final suspension point.
\<close>

datatype exn = StdException string | ForeignException

datatype coro = Finish | Pause coro | Raise exn

datatype frame = Suspended coro | Dangling

datatype log_line =
    CoroutineProblem
  | TaskProblem string string
  | TaskCompleted string

record GentleTask =
  handle :: "frame option"
  task_name :: string

text \<open>
  A call either has undefined behaviour, or lets an exception out, or returns.
\<close>

datatype 'a result = Undefined_behaviour | Throws exn | Returns 'a

text \<open>
  \<^verbatim>\<open>promise_type::unhandled_exception\<close> prints one line and returns normally.
\<close>

definition unhandled_exception :: "log_line list" where
  "unhandled_exception = [CoroutineProblem]"

text \<open>
  \<^verbatim>\<open>handle_.resume()\<close> on a suspended frame: the body runs on. When it reaches its end the
  frame is destroyed. An exception that leaves the body is passed by the language to
  \<^verbatim>\<open>unhandled_exception\<close>; as that returns, the coroutine goes on to \<^verbatim>\<open>final_suspend\<close> and
  the frame is destroyed as well. Nothing is thrown to the caller of \<^verbatim>\<open>resume\<close>; the result
  is a sum so that \<^verbatim>\<open>resume_gently\<close> can be written with its \<^verbatim>\<open>try\<close>/\<^verbatim>\<open>catch\<close>.
\<close>

fun coroutine_resume :: "coro \<Rightarrow> exn + frame \<times> log_line list" where
  "coroutine_resume Finish = Inr (Dangling, [])"
| "coroutine_resume (Pause k) = Inr (Suspended k, [])"
| "coroutine_resume (Raise e) = Inr (Dangling, unhandled_exception)"

text \<open>
  \<^verbatim>\<open>handle_.done()\<close> requires a handle that refers to a suspended coroutine. On a frame
  suspended inside the body it returns false; on a dangling handle the behaviour is
  undefined (\<open>None\<close>).
\<close>

fun handle_done :: "frame \<Rightarrow> bool option" where
  "handle_done (Suspended k) = Some False"
| "handle_done Dangling = None"

definition is_done :: "GentleTask \<Rightarrow> bool option" where
  "is_done t = (case handle t of None \<Rightarrow> Some True | Some f \<Rightarrow> handle_done f)"

text \<open>
  \<^verbatim>\<open>resume_gently\<close> evaluates \<^verbatim>\<open>handle_ && !handle_.done()\<close> first.
  \<^verbatim>\<open>catch (const std::exception& e)\<close> handles exceptions derived from \<^verbatim>\<open>std::exception\<close>
  only; anything else would leave \<^verbatim>\<open>resume_gently\<close>.
\<close>

definition resume_gently :: "GentleTask \<Rightarrow> (GentleTask \<times> log_line list) result" where
  "resume_gently t =
     (case handle t of
        None \<Rightarrow> Returns (t, [])
      | Some f \<Rightarrow>
          (case handle_done f of
             None \<Rightarrow> Undefined_behaviour
           | Some True \<Rightarrow> Returns (t, [])
           | Some False \<Rightarrow>
               (case f of
                  Dangling \<Rightarrow> Undefined_behaviour
                | Suspended k \<Rightarrow>
                    (case coroutine_resume k of
                       Inr (f', out) \<Rightarrow> Returns (t\<lparr>handle := Some f'\<rparr>, out)
                     | Inl (StdException what) \<Rightarrow>
                         Returns (t, [TaskProblem (task_name t) what])
                     | Inl ForeignException \<Rightarrow> Throws ForeignException))))"

section \<open>GentleScheduler\<close>

text \<open>
  The shared state of the scheduler: the vector \<^verbatim>\<open>tasks_\<close> (guarded by \<^verbatim>\<open>tasks_mutex_\<close>),
  the stop flag and the three \<^verbatim>\<open>std::atomic<size_t>\<close> counters, 64 bits wide. A queue entry
  is a \<^verbatim>\<open>std::unique_ptr<GentleTask>\<close>: null (\<open>None\<close>) or an owned task. \<open>console\<close> collects
  what the workers print about tasks.
\<close>

record GentleScheduler =
  tasks :: "GentleTask option list"
  should_stop :: bool
  active_tasks :: "64 word"
  total_tasks_created :: "64 word"
  total_tasks_completed :: "64 word"
  console :: "log_line list"

definition GentleScheduler_new :: GentleScheduler where
  "GentleScheduler_new =
     \<lparr>tasks = [], should_stop = False, active_tasks = 0, total_tasks_created = 0,
      total_tasks_completed = 0, console = []\<rparr>"

definition spawn_gently :: "GentleTask option \<Rightarrow> GentleScheduler \<Rightarrow> GentleScheduler" where
  "spawn_gently task s =
     s\<lparr>tasks := tasks s @ [task],
       active_tasks := active_tasks s + 1,
       total_tasks_created := total_tasks_created s + 1\<rparr>"

text \<open>
  \<^verbatim>\<open>await_all_with_patience\<close> loops while \<^verbatim>\<open>active_tasks_.load() > 0\<close>, sleeping between
  polls; it returns at the first poll that reads zero.
\<close>

definition await_all_returns :: "GentleScheduler \<Rightarrow> bool" where
  "await_all_returns s = (\<not> 0 < active_tasks s)"

subsection \<open>One pass of the worker loop, run without interference\<close>

text \<open>
  The body of the \<^verbatim>\<open>while\<close> loop of \<^verbatim>\<open>worker_loop\<close>, lines 252 to 283. A null entry taken
  from the queue fails the test \<^verbatim>\<open>if (task)\<close>: it is dropped and nothing else happens.
\<close>

datatype pass = Exits | Waits | Escapes exn | Undefined | Ran GentleScheduler

definition worker_pass :: "GentleScheduler \<Rightarrow> pass" where
  "worker_pass s =
     (if should_stop s then Exits
      else if tasks s = [] then Waits
      else
        let s1 = s\<lparr>tasks := butlast (tasks s)\<rparr>
        in case last (tasks s) of
             None \<Rightarrow> Ran s1
           | Some task \<Rightarrow>
               (case resume_gently task of
                  Undefined_behaviour \<Rightarrow> Undefined
                | Throws e \<Rightarrow> Escapes e
                | Returns (task', out) \<Rightarrow>
                    let s2 = s1\<lparr>console := console s1 @ out\<rparr>
                    in (case is_done task' of
                          None \<Rightarrow> Undefined
                        | Some True \<Rightarrow>
                            Ran (s2\<lparr>active_tasks := active_tasks s2 - 1,
                                    total_tasks_completed := total_tasks_completed s2 + 1,
                                    console := console s2 @ [TaskCompleted (task_name task')]\<rparr>)
                        | Some False \<Rightarrow> Ran (s2\<lparr>tasks := tasks s2 @ [Some task']\<rparr>))))"

subsection \<open>The worker loop as atomic steps of concurrent threads\<close>

text \<open>
  Between the critical section that pops a task and the one that pushes it back a worker
  holds no lock, and \<^verbatim>\<open>active_tasks_.fetch_sub(1)\<close> and
  \<^verbatim>\<open>total_tasks_completed_.fetch_add(1)\<close> are two separate atomic operations. A worker is
  therefore at one of these places: at the top of the loop, holding a task it popped,
  holding the task after \<^verbatim>\<open>resume_gently\<close>, between the two counter updates, or out of
  the loop. A step is not enabled (the worker waits, or has left), or has undefined
  behaviour, or leads to a next state. An exception leaving \<^verbatim>\<open>resume_gently\<close> would end
  the worker thread.
\<close>

datatype worker = AtTop | Took GentleTask | Resumed GentleTask | Decremented GentleTask | Left

datatype 'a step = Disabled | Faults | Next 'a

fun worker_step :: "GentleScheduler \<times> worker \<Rightarrow> (GentleScheduler \<times> worker) step" where
  "worker_step (s, AtTop) =
     (if should_stop s then Next (s, Left)
      else if tasks s = [] then Disabled
      else (case last (tasks s) of
              None \<Rightarrow> Next (s\<lparr>tasks := butlast (tasks s)\<rparr>, AtTop)
            | Some t \<Rightarrow> Next (s\<lparr>tasks := butlast (tasks s)\<rparr>, Took t)))"
| "worker_step (s, Took t) =
     (case resume_gently t of
        Undefined_behaviour \<Rightarrow> Faults
      | Throws e \<Rightarrow> Next (s, Left)
      | Returns (t', out) \<Rightarrow> Next (s\<lparr>console := console s @ out\<rparr>, Resumed t'))"
| "worker_step (s, Resumed t) =
     (case is_done t of
        None \<Rightarrow> Faults
      | Some True \<Rightarrow> Next (s\<lparr>active_tasks := active_tasks s - 1\<rparr>, Decremented t)
      | Some False \<Rightarrow> Next (s\<lparr>tasks := tasks s @ [Some t]\<rparr>, AtTop))"
| "worker_step (s, Decremented t) =
     Next (s\<lparr>total_tasks_completed := total_tasks_completed s + 1,
             console := console s @ [TaskCompleted (task_name t)]\<rparr>, AtTop)"
| "worker_step (s, Left) = Disabled"

text \<open>
  The whole system: the shared state and the place of every worker thread. An event is a
  call of \<^verbatim>\<open>spawn_gently\<close>, the store to the stop flag, or the next atomic step of worker
  \<open>i\<close>. \<^verbatim>\<open>spawn_gently\<close> is one step: it updates the queue and both counters inside one
  critical section of \<^verbatim>\<open>tasks_mutex_\<close>, which a worker needs to take a task.
\<close>

datatype sched_event = Spawn "GentleTask option" | RequestStop | Work nat

fun sched_step ::
  "sched_event \<Rightarrow> GentleScheduler \<times> worker list \<Rightarrow> (GentleScheduler \<times> worker list) step" where
  "sched_step (Spawn task) (s, ws) = Next (spawn_gently task s, ws)"
| "sched_step RequestStop (s, ws) = Next (s\<lparr>should_stop := True\<rparr>, ws)"
| "sched_step (Work i) (s, ws) =
     (if i < length ws
      then (case worker_step (s, ws ! i) of
              Disabled \<Rightarrow> Disabled
            | Faults \<Rightarrow> Faults
            | Next (s', w') \<Rightarrow> Next (s', ws[i := w']))
      else Disabled)"

fun sched_run ::
  "sched_event list \<Rightarrow> GentleScheduler \<times> worker list \<Rightarrow> (GentleScheduler \<times> worker list) step" where
  "sched_run [] c = Next c"
| "sched_run (e # es) c =
     (case sched_step e c of
        Disabled \<Rightarrow> Disabled
      | Faults \<Rightarrow> Faults
      | Next c' \<Rightarrow> sched_run es c')"

text \<open>
  Book-keeping for the counters: a worker between the two counter updates has decremented
  \<^verbatim>\<open>active_tasks_\<close> but not yet incremented \<^verbatim>\<open>total_tasks_completed_\<close>.
\<close>

fun uncounted :: "worker \<Rightarrow> nat" where
  "uncounted (Decremented t) = 1"
| "uncounted _ = 0"

definition counters_agree :: "GentleScheduler \<times> worker list \<Rightarrow> bool" where
  "counters_agree c =
     (case c of (s, ws) \<Rightarrow>
        total_tasks_created s
          = total_tasks_completed s + active_tasks s + of_nat (sum_list (map uncounted ws)))"

section \<open>Properties of GentleOwnership\<close>

lemma cell_call_empty:
  "cell_data c = None \<Longrightarrow> cell_call x c = (r, c') \<Longrightarrow>
     c' = c \<and> (touches_value x \<longrightarrow> is_use_after_transfer r)"
  by (cases x)
     (auto simp: borrow_gently_def borrow_mutably_def transfer_with_care_def)

lemma cell_calls_length: "cell_calls xs c = (rs, c') \<Longrightarrow> length rs = length xs"
  by (induction xs arbitrary: c rs c') (auto split: prod.splits)

lemma cell_calls_empty:
  "cell_data c = None \<Longrightarrow> cell_calls xs c = (rs, c') \<Longrightarrow>
     c' = c \<and> (\<forall>i < length xs. touches_value (xs ! i) \<longrightarrow> is_use_after_transfer (rs ! i))"
proof (induction xs arbitrary: rs)
  case Nil
  then show ?case by simp
next
  case (Cons x xs)
  obtain r c1 where step: "cell_call x c = (r, c1)" by (cases "cell_call x c")
  obtain rs1 c2 where rest: "cell_calls xs c1 = (rs1, c2)" by (cases "cell_calls xs c1")
  from cell_call_empty [OF Cons.prems(1) step]
  have c1: "c1 = c" and r: "touches_value x \<longrightarrow> is_use_after_transfer r" by simp_all
  from Cons.prems(2) step rest have rs: "rs = r # rs1" and c': "c' = c2" by simp_all
  from Cons.IH [OF Cons.prems(1)] rest c1 c'
  have ih: "c' = c"
    "\<forall>i < length xs. touches_value (xs ! i) \<longrightarrow> is_use_after_transfer (rs1 ! i)"
    by simp_all
  show ?case
  proof (intro conjI allI impI)
    show "c' = c" by (rule ih(1))
  next
    fix i assume "i < length (x # xs)" and tv: "touches_value ((x # xs) ! i)"
    then show "is_use_after_transfer (rs ! i)"
      using r ih(2) rs by (cases i) simp_all
  qed
qed

text \<open>
  C1. Once the cell is empty, every later \<^verbatim>\<open>borrow_gently\<close>, \<^verbatim>\<open>borrow_mutably\<close> and
  \<^verbatim>\<open>transfer_with_care\<close> call, in any sequence of calls, throws the use-after-transfer
  error, and the cell is still empty (indeed unchanged) after the whole sequence.
\<close>

theorem C1_empty_cell_stays_empty:
  assumes "cell_data c = None" and "cell_calls xs c = (rs, c')"
  shows "cell_data c' = None
       \<and> (\<forall>i < length xs. touches_value (xs ! i) \<longrightarrow> is_use_after_transfer (rs ! i))
       \<and> (\<exists>m. borrow_gently f c' = Inl (UseAfterTransfer m))
       \<and> (\<exists>m. borrow_mutably g c' = Inl (UseAfterTransfer m))
       \<and> (\<exists>m. transfer_with_care n c' = Inl (UseAfterTransfer m))"
proof -
  from cell_calls_empty [OF assms]
  have same: "c' = c"
    and fails: "\<forall>i < length xs. touches_value (xs ! i) \<longrightarrow> is_use_after_transfer (rs ! i)"
    by simp_all
  from same assms(1) have empty: "cell_data c' = None" by simp
  from empty have "borrow_gently f c' = Inl (UseAfterTransfer CannotAccess)"
    by (simp add: borrow_gently_def)
  moreover from empty have "borrow_mutably g c' = Inl (UseAfterTransfer CannotModify)"
    by (simp add: borrow_mutably_def)
  moreover from empty have "transfer_with_care n c' = Inl (UseAfterTransfer AlreadyGivenAway)"
    by (simp add: transfer_with_care_def)
  ultimately show ?thesis using empty fails by blast
qed

theorem C1_empty_cell_stays_empty_witness:
  "cell_data \<lparr>cell_data = None :: int option, owner_name = ''B''\<rparr> = None
   \<and> cell_calls [BorrowGently (\<lambda>v. (v, v)), BorrowMutably (\<lambda>v. (v, v + 1)),
                   TransferWithCare ''C'', IsAvailable]
        \<lparr>cell_data = None :: int option, owner_name = ''B''\<rparr>
       = ([Thrown (UseAfterTransfer CannotAccess), Thrown (UseAfterTransfer CannotModify),
           Thrown (UseAfterTransfer AlreadyGivenAway), Available False],
          \<lparr>cell_data = None, owner_name = ''B''\<rparr>)
   \<and> (\<exists>m. borrow_gently (\<lambda>v. (v, v)) \<lparr>cell_data = None :: int option, owner_name = ''B''\<rparr>
            = Inl (UseAfterTransfer m))
   \<and> (\<exists>m. transfer_with_care ''C'' \<lparr>cell_data = None :: int option, owner_name = ''B''\<rparr>
            = Inl (UseAfterTransfer m))"
  using C1_empty_cell_stays_empty
    [of "\<lparr>cell_data = None :: int option, owner_name = ''B''\<rparr>"
        "[BorrowGently (\<lambda>v. (v, v)), BorrowMutably (\<lambda>v. (v, v + 1)),
          TransferWithCare ''C'', IsAvailable]"
        "[Thrown (UseAfterTransfer CannotAccess), Thrown (UseAfterTransfer CannotModify),
          Thrown (UseAfterTransfer AlreadyGivenAway), Available False]"
        "\<lparr>cell_data = None, owner_name = ''B''\<rparr>"
        "\<lambda>v. (v, v)" "\<lambda>v. (v, v + 1)" "''C''"]
  by (simp add: borrow_gently_def borrow_mutably_def transfer_with_care_def is_available_def)

text \<open>
  C7. On a cell that still holds its value \<open>v\<close>, \<^verbatim>\<open>transfer_with_care\<close> returns \<open>v\<close>,
  sets the owner label to the new owner and leaves the cell empty. The scenario: a cell
  owned by \<open>A\<close> holding 0 holds 1 after a \<^verbatim>\<open>borrow_mutably\<close> that increments; the transfer
  to \<open>B\<close> then returns 1 and \<^verbatim>\<open>current_owner\<close> reports \<open>B\<close>.
\<close>

theorem C7_transfer_hands_over_value:
  "(cell_data c = Some v \<longrightarrow>
      (\<exists>c'. transfer_with_care new_owner c = Inr (v, c')
          \<and> c' = c\<lparr>owner_name := new_owner, cell_data := None\<rparr>
          \<and> current_owner c' = new_owner \<and> cell_data c' = None \<and> \<not> is_available c'))
   \<and> borrow_mutably (\<lambda>x. ((), x + 1)) (GentleOwnership_new (0 :: int) ''A'')
       = Inr ((), \<lparr>cell_data = Some 1, owner_name = ''A''\<rparr>)
   \<and> transfer_with_care ''B'' \<lparr>cell_data = Some (1 :: int), owner_name = ''A''\<rparr>
       = Inr (1, \<lparr>cell_data = None, owner_name = ''B''\<rparr>)
   \<and> current_owner \<lparr>cell_data = None :: int option, owner_name = ''B''\<rparr> = ''B''"
  by (simp add: transfer_with_care_def borrow_mutably_def GentleOwnership_new_def
        current_owner_def is_available_def)

theorem C7_transfer_hands_over_value_witness:
  "cell_data (GentleOwnership_new (7 :: int) ''A'') = Some 7
   \<and> transfer_with_care ''B'' (GentleOwnership_new (7 :: int) ''A'')
       = Inr (7, \<lparr>cell_data = None, owner_name = ''B''\<rparr>)"
  using C7_transfer_hands_over_value [of "GentleOwnership_new (7 :: int) ''A''" 7 "''B''"]
  by (auto simp: GentleOwnership_new_def transfer_with_care_def current_owner_def)

section \<open>Properties of GentleChannel\<close>

lemma chan_step_capacity: "max_capacity (snd (chan_step e ch)) = max_capacity ch"
  by (cases e)
     (simp_all add: send_with_care_def send_from_wait_def receive_with_patience_def
        close_gently_def split: list.splits)

lemma chan_step_bounded:
  "length (chan_queue ch) \<le> max_capacity ch \<Longrightarrow>
     length (chan_queue (snd (chan_step e ch))) \<le> max_capacity ch"
  by (cases e)
     (auto simp: send_with_care_def send_from_wait_def receive_with_patience_def
        close_gently_def split: list.splits)

lemma chan_step_closed:
  "chan_closed ch \<Longrightarrow>
     chan_closed (snd (chan_step e ch)) \<and>
     (chan_queue (snd (chan_step e ch)) = chan_queue ch \<or>
      chan_queue (snd (chan_step e ch)) = drop 1 (chan_queue ch))"
  by (cases e)
     (auto simp: send_with_care_def send_from_wait_def receive_with_patience_def
        close_gently_def split: list.splits)

lemma chan_run_snd_Cons: "snd (chan_run (e # es) ch) = snd (chan_run es (snd (chan_step e ch)))"
  by (simp split: prod.splits)

lemma chan_run_capacity: "max_capacity (snd (chan_run es ch)) = max_capacity ch"
proof (induction es arbitrary: ch)
  case Nil
  show ?case by simp
next
  case (Cons e es)
  show ?case
    unfolding chan_run_snd_Cons using Cons.IH chan_step_capacity by metis
qed

lemma chan_run_bounded:
  "length (chan_queue ch) \<le> max_capacity ch \<Longrightarrow>
     length (chan_queue (snd (chan_run es ch))) \<le> max_capacity ch"
proof (induction es arbitrary: ch)
  case Nil
  then show ?case by simp
next
  case (Cons e es)
  let ?ch1 = "snd (chan_step e ch)"
  have "length (chan_queue ?ch1) \<le> max_capacity ?ch1"
    using chan_step_bounded [OF Cons.prems] chan_step_capacity [of e ch] by simp
  from Cons.IH [OF this] show ?case
    unfolding chan_run_snd_Cons using chan_step_capacity [of e ch] by simp
qed

lemma chan_run_closed:
  "chan_closed ch \<Longrightarrow>
     chan_closed (snd (chan_run es ch)) \<and>
     (\<exists>n. chan_queue (snd (chan_run es ch)) = drop n (chan_queue ch))"
proof (induction es arbitrary: ch)
  case Nil
  have "chan_queue ch = drop 0 (chan_queue ch)" by simp
  with Nil show ?case by (metis chan_run.simps(1) snd_conv)
next
  case (Cons e es)
  let ?ch1 = "snd (chan_step e ch)"
  from chan_step_closed [OF Cons.prems]
  have c1: "chan_closed ?ch1"
    and q1: "chan_queue ?ch1 = chan_queue ch \<or> chan_queue ?ch1 = drop 1 (chan_queue ch)"
    by simp_all
  from Cons.IH [OF c1] obtain n where
    c2: "chan_closed (snd (chan_run es ?ch1))"
    and q2: "chan_queue (snd (chan_run es ?ch1)) = drop n (chan_queue ?ch1)"
    by blast
  from q1 q2 have "chan_queue (snd (chan_run es ?ch1)) = drop n (chan_queue ch)
      \<or> chan_queue (snd (chan_run es ?ch1)) = drop (n + 1) (chan_queue ch)"
    by auto
  then have "\<exists>m. chan_queue (snd (chan_run es ?ch1)) = drop m (chan_queue ch)" by blast
  with c2 show ?case unfolding chan_run_snd_Cons by simp
qed

text \<open>
  C2. In every state \<open>ch1\<close> a channel reaches from its construction, under any sequence of
  sends, wake-ups of waiting senders, receives and closes, the queue is no longer than the
  capacity given to the constructor. If \<open>ch1\<close> is closed then so is every state \<open>ch2\<close>
  reached from it, the queue of \<open>ch2\<close> is what is left of the queue of \<open>ch1\<close> after dropping
  some items from its front (nothing was appended), and a sender woken from its wait
  returns false and leaves the channel as it is.
\<close>

theorem C2_channel_bounded_and_closed_for_good:
  "length (chan_queue (snd (chan_run es1 (GentleChannel_new cap)))) \<le> cap
   \<and> max_capacity (snd (chan_run es1 (GentleChannel_new cap))) = cap
   \<and> (chan_closed (snd (chan_run es1 (GentleChannel_new cap))) \<longrightarrow>
        chan_closed (snd (chan_run es2 (snd (chan_run es1 (GentleChannel_new cap)))))
      \<and> (\<exists>n. chan_queue (snd (chan_run es2 (snd (chan_run es1 (GentleChannel_new cap)))))
              = drop n (chan_queue (snd (chan_run es1 (GentleChannel_new cap)))))
      \<and> send_from_wait v (snd (chan_run es1 (GentleChannel_new cap)))
          = (SendReturns False, snd (chan_run es1 (GentleChannel_new cap)))
      \<and> send_with_care v (snd (chan_run es1 (GentleChannel_new cap)))
          = (SendReturns False, snd (chan_run es1 (GentleChannel_new cap))))"
proof -
  let ?c0 = "GentleChannel_new cap :: 'a GentleChannel"
  let ?ch1 = "snd (chan_run es1 ?c0)"
  have start: "length (chan_queue ?c0) \<le> max_capacity ?c0" and cap0: "max_capacity ?c0 = cap"
    by (simp_all add: GentleChannel_new_def)
  have bounded: "length (chan_queue ?ch1) \<le> cap"
    using chan_run_bounded [OF start, of es1] cap0 by simp
  have capacity: "max_capacity ?ch1 = cap"
    using chan_run_capacity [of es1 ?c0] cap0 by simp
  have closed: "chan_closed ?ch1 \<longrightarrow>
      chan_closed (snd (chan_run es2 ?ch1)) \<and>
      (\<exists>n. chan_queue (snd (chan_run es2 ?ch1)) = drop n (chan_queue ?ch1))"
    using chan_run_closed [of ?ch1 es2] by blast
  have woken: "chan_closed ?ch1 \<longrightarrow> send_from_wait v ?ch1 = (SendReturns False, ?ch1)"
    by (simp add: send_from_wait_def)
  have fresh: "chan_closed ?ch1 \<longrightarrow> send_with_care v ?ch1 = (SendReturns False, ?ch1)"
    by (simp add: send_with_care_def)
  from bounded capacity closed woken fresh show ?thesis by blast
qed

theorem C2_channel_bounded_and_closed_for_good_witness:
  "chan_closed (snd (chan_run [Send 1, Send 2, Send 3, Close] (GentleChannel_new 2)))
   \<and> chan_queue (snd (chan_run [Send 1, Send 2, Send 3, Close] (GentleChannel_new 2)))
       = [1 :: nat, 2]
   \<and> chan_closed (snd (chan_run [SendWoken 3, Receive, Send 4]
        (snd (chan_run [Send 1, Send 2, Send 3, Close] (GentleChannel_new 2)))))
   \<and> chan_queue (snd (chan_run [SendWoken 3, Receive, Send 4]
        (snd (chan_run [Send 1, Send 2, Send 3, Close] (GentleChannel_new 2))))) = [2]"
  using C2_channel_bounded_and_closed_for_good
    [of "[Send 1, Send 2, Send (3 :: nat), Close]" 2 "[SendWoken 3, Receive, Send 4]" 3]
  by (simp add: GentleChannel_new_def send_with_care_def send_from_wait_def
        receive_with_patience_def close_gently_def)

lemma chan_run_after_close:
  "chan_closed ch \<Longrightarrow> chan_run es ch = (rs, ch') \<Longrightarrow>
     received rs =
       map ReceiveReturns
         (map Some (take (receive_count es) (chan_queue ch))
          @ replicate (receive_count es - length (chan_queue ch)) None)
     \<and> send_replies rs = replicate (length (send_replies rs)) (SendReturns False)
     \<and> chan_queue ch' = drop (receive_count es) (chan_queue ch)
     \<and> chan_closed ch'"
proof (induction es arbitrary: ch rs ch')
  case Nil
  then show ?case by auto
next
  case (Cons e es)
  note IH = Cons.IH and closed = Cons.prems(1) and run = Cons.prems(2)
  obtain r ch1 where step: "chan_step e ch = (r, ch1)" by (cases "chan_step e ch")
  obtain rs1 ch2 where rest: "chan_run es ch1 = (rs1, ch2)" by (cases "chan_run es ch1")
  from run step rest have rs: "rs = r # rs1" and ch': "ch' = ch2" by simp_all
  from chan_step_closed [OF closed, of e] step have closed1: "chan_closed ch1" by simp
  note tail = IH [OF closed1 rest]
  show ?case
  proof (cases e)
    case (Send v)
    with step closed have "r = Sending (SendReturns False)" and "ch1 = ch"
      by (simp_all add: send_with_care_def)
    with tail rs ch' Send show ?thesis by simp
  next
    case (SendWoken v)
    with step closed have "r = Sending (SendReturns False)" and "ch1 = ch"
      by (simp_all add: send_from_wait_def)
    with tail rs ch' SendWoken show ?thesis by simp
  next
    case Close
    with step closed have "r = Closing" and "chan_queue ch1 = chan_queue ch"
      by (auto simp: close_gently_def)
    with tail rs ch' Close show ?thesis by simp
  next
    case Receive
    show ?thesis
    proof (cases "chan_queue ch")
      case Nil
      with step closed Receive
      have "r = Receiving (ReceiveReturns None)" and "ch1 = ch"
        by (simp_all add: receive_with_patience_def)
      with tail rs ch' Receive Nil show ?thesis by simp
    next
      case (Cons x q)
      with step closed Receive
      have "r = Receiving (ReceiveReturns (Some x))" and "chan_queue ch1 = q"
        by (auto simp: receive_with_patience_def)
      with tail rs ch' Receive Cons show ?thesis by simp
    qed
  qed
qed

lemma chan_step_fifo:
  "chan_step e ch = (r, ch') \<Longrightarrow>
     chan_queue ch @ enqueued [e] [r] = delivered [r] @ chan_queue ch'"
  by (cases e)
     (auto simp: send_with_care_def send_from_wait_def receive_with_patience_def
        close_gently_def split: if_splits list.splits)

lemma enqueued_Cons: "enqueued (e # es) (r # rs) = enqueued [e] [r] @ enqueued es rs"
  by (cases "(e # es, r # rs)" rule: enqueued.cases) auto

lemma delivered_Cons: "delivered (r # rs) = delivered [r] @ delivered rs"
  by (cases "r # rs" rule: delivered.cases) auto

lemma chan_run_fifo:
  "chan_run es ch = (rs, ch') \<Longrightarrow>
     chan_queue ch @ enqueued es rs = delivered rs @ chan_queue ch'"
proof (induction es arbitrary: ch rs)
  case Nil
  then show ?case by simp
next
  case (Cons e es)
  obtain r ch1 where step: "chan_step e ch = (r, ch1)" by (cases "chan_step e ch")
  obtain rs1 where rest: "chan_run es ch1 = (rs1, ch')" and rs: "rs = r # rs1"
    using Cons.prems step by (auto split: prod.splits)
  have "chan_queue ch @ enqueued (e # es) rs
      = (chan_queue ch @ enqueued [e] [r]) @ enqueued es rs1"
    unfolding rs by (subst enqueued_Cons) simp
  also have "\<dots> = delivered [r] @ (chan_queue ch1 @ enqueued es rs1)"
    using chan_step_fifo [OF step] by simp
  also have "\<dots> = delivered [r] @ (delivered rs1 @ chan_queue ch')"
    using Cons.IH [OF rest] by simp
  also have "\<dots> = delivered rs @ chan_queue ch'"
    unfolding rs by (subst (2) delivered_Cons) simp
  finally show ?case .
qed

text \<open>
  C3. Take a channel from its construction through any sequence \<open>es1\<close> of sends, wake-ups
  of waiting senders and receives, close it, and let any sequence \<open>es2\<close> follow. The items
  that were in the queue at the close are the items the sends of \<open>es1\<close> enqueued, in that
  order, less the ones its receives already handed out from the front. After the close
  the receives return exactly these items, oldest first, and from then on the empty
  result; every send returns false and enqueues nothing.
\<close>

theorem C3_closed_channel_drains_in_order:
  assumes "chan_run es1 (GentleChannel_new cap) = (rs1, ch1)"
    and "chan_run es2 (close_gently ch1) = (rs2, ch2)"
  shows "enqueued es1 rs1 = delivered rs1 @ chan_queue ch1
       \<and> chan_queue (close_gently ch1) = drop (length (delivered rs1)) (enqueued es1 rs1)
       \<and> received rs2 =
           map ReceiveReturns
             (map Some (take (receive_count es2)
                          (drop (length (delivered rs1)) (enqueued es1 rs1)))
              @ replicate (receive_count es2
                             - (length (enqueued es1 rs1) - length (delivered rs1))) None)
       \<and> send_replies rs2 = replicate (length (send_replies rs2)) (SendReturns False)
       \<and> chan_queue ch2
           = drop (receive_count es2) (drop (length (delivered rs1)) (enqueued es1 rs1))
       \<and> chan_closed ch2
       \<and> send_with_care v ch2 = (SendReturns False, ch2)
       \<and> (chan_queue ch2 = [] \<longrightarrow> receive_with_patience ch2 = (ReceiveReturns None, ch2))"
proof -
  have "chan_queue (GentleChannel_new cap :: 'a GentleChannel) = []"
    by (simp add: GentleChannel_new_def)
  with chan_run_fifo [OF assms(1)]
  have fifo: "enqueued es1 rs1 = delivered rs1 @ chan_queue ch1" by simp
  then have left: "chan_queue ch1 = drop (length (delivered rs1)) (enqueued es1 rs1)"
    by simp
  then have at_close:
    "chan_queue (close_gently ch1) = drop (length (delivered rs1)) (enqueued es1 rs1)"
    by (simp add: close_gently_def)
  have closed: "chan_closed (close_gently ch1)" by (simp add: close_gently_def)
  from chan_run_after_close [OF closed assms(2)]
  have run: "received rs2 =
           map ReceiveReturns
             (map Some (take (receive_count es2) (chan_queue (close_gently ch1)))
              @ replicate (receive_count es2 - length (chan_queue (close_gently ch1))) None)"
    "send_replies rs2 = replicate (length (send_replies rs2)) (SendReturns False)"
    "chan_queue ch2 = drop (receive_count es2) (chan_queue (close_gently ch1))"
    and closed2: "chan_closed ch2"
    by simp_all
  have len: "length (chan_queue (close_gently ch1))
      = length (enqueued es1 rs1) - length (delivered rs1)"
    unfolding at_close by simp
  from closed2 have send: "send_with_care v ch2 = (SendReturns False, ch2)"
    by (simp add: send_with_care_def)
  from closed2
  have last: "chan_queue ch2 = [] \<longrightarrow> receive_with_patience ch2 = (ReceiveReturns None, ch2)"
    by (simp add: receive_with_patience_def)
  from run(1) have r1: "received rs2 =
           map ReceiveReturns
             (map Some (take (receive_count es2)
                          (drop (length (delivered rs1)) (enqueued es1 rs1)))
              @ replicate (receive_count es2
                             - (length (enqueued es1 rs1) - length (delivered rs1))) None)"
    unfolding len unfolding at_close .
  from run(3) have r3: "chan_queue ch2
           = drop (receive_count es2) (drop (length (delivered rs1)) (enqueued es1 rs1))"
    unfolding at_close .
  from fifo at_close r1 run(2) r3 closed2 send last show ?thesis by blast
qed

theorem C3_closed_channel_drains_in_order_witness:
  "chan_run [Send 10, Send 20, Receive, Send 30, Send 40, Send 50] (GentleChannel_new 3)
     = ([Sending (SendReturns True), Sending (SendReturns True),
         Receiving (ReceiveReturns (Some (10 :: nat))), Sending (SendReturns True),
         Sending (SendReturns True), Sending SendWaits],
        \<lparr>chan_queue = [20, 30, 40], chan_closed = False, max_capacity = 3\<rparr>)
   \<and> chan_run [Receive, SendWoken 50, Receive, Receive, Receive, Send 60, Receive]
        (close_gently \<lparr>chan_queue = [20, 30, 40], chan_closed = False, max_capacity = 3\<rparr>)
     = ([Receiving (ReceiveReturns (Some 20)), Sending (SendReturns False),
         Receiving (ReceiveReturns (Some 30)), Receiving (ReceiveReturns (Some 40)),
         Receiving (ReceiveReturns None), Sending (SendReturns False),
         Receiving (ReceiveReturns None)],
        \<lparr>chan_queue = [], chan_closed = True, max_capacity = 3\<rparr>)
   \<and> enqueued [Send 10, Send 20, Receive, Send 30, Send 40, Send 50]
        [Sending (SendReturns True), Sending (SendReturns True),
         Receiving (ReceiveReturns (Some (10 :: nat))), Sending (SendReturns True),
         Sending (SendReturns True), Sending SendWaits] = [10, 20, 30, 40]
   \<and> receive_with_patience \<lparr>chan_queue = [] :: nat list, chan_closed = True, max_capacity = 3\<rparr>
     = (ReceiveReturns None, \<lparr>chan_queue = [], chan_closed = True, max_capacity = 3\<rparr>)"
proof -
  have before: "chan_run [Send 10, Send 20, Receive, Send 30, Send 40, Send 50]
        (GentleChannel_new 3)
     = ([Sending (SendReturns True), Sending (SendReturns True),
         Receiving (ReceiveReturns (Some (10 :: nat))), Sending (SendReturns True),
         Sending (SendReturns True), Sending SendWaits],
        \<lparr>chan_queue = [20, 30, 40], chan_closed = False, max_capacity = 3\<rparr>)"
    by (simp add: GentleChannel_new_def send_with_care_def send_from_wait_def
          receive_with_patience_def)
  have after: "chan_run [Receive, SendWoken 50, Receive, Receive, Receive, Send 60, Receive]
        (close_gently \<lparr>chan_queue = [20, 30, 40], chan_closed = False, max_capacity = 3\<rparr>)
     = ([Receiving (ReceiveReturns (Some 20)), Sending (SendReturns False),
         Receiving (ReceiveReturns (Some 30)), Receiving (ReceiveReturns (Some 40)),
         Receiving (ReceiveReturns None), Sending (SendReturns False),
         Receiving (ReceiveReturns None)],
        \<lparr>chan_queue = [], chan_closed = True, max_capacity = 3\<rparr>)"
    by (simp add: close_gently_def send_with_care_def send_from_wait_def
          receive_with_patience_def)
  from C3_closed_channel_drains_in_order [OF before after, of 70] before after
  show ?thesis by simp
qed

lemma send_all_open:
  "\<not> chan_closed ch \<Longrightarrow> length (chan_queue ch) + length vs \<le> max_capacity ch \<Longrightarrow>
     send_all vs ch
       = (replicate (length vs) (SendReturns True), ch\<lparr>chan_queue := chan_queue ch @ vs\<rparr>)"
proof (induction vs arbitrary: ch)
  case Nil
  then show ?case by simp
next
  case (Cons v vs)
  let ?ch1 = "ch\<lparr>chan_queue := chan_queue ch @ [v]\<rparr>"
  from Cons.prems have step: "send_with_care v ch = (SendReturns True, ?ch1)"
    by (simp add: send_with_care_def send_from_wait_def)
  from Cons.prems have "\<not> chan_closed ?ch1"
    and "length (chan_queue ?ch1) + length vs \<le> max_capacity ?ch1"
    by simp_all
  from Cons.IH [OF this] step show ?case by simp
qed

text \<open>
  C10. A channel built with the constructor's default argument has capacity 100. On such
  a channel, open and never received from, the first 100 sends all return true and queue
  their values in order; a send returns true exactly when fewer than 100 items are queued,
  and with 100 items queued it waits.
\<close>

theorem C10_default_capacity_is_100:
  "max_capacity (GentleChannel_default :: 'a GentleChannel) = 100
   \<and> (length vs \<le> 100 \<longrightarrow>
        send_all vs GentleChannel_default
          = (replicate (length vs) (SendReturns True),
             \<lparr>chan_queue = vs, chan_closed = False, max_capacity = 100\<rparr>))
   \<and> (fst (send_with_care (v :: 'a)
              \<lparr>chan_queue = vs, chan_closed = False, max_capacity = 100\<rparr>) = SendReturns True
        \<longleftrightarrow> length vs < 100)
   \<and> (length vs = 100 \<longrightarrow>
        send_with_care v (snd (send_all vs GentleChannel_default))
          = (SendWaits, \<lparr>chan_queue = vs, chan_closed = False, max_capacity = 100\<rparr>))"
proof -
  let ?d = "GentleChannel_default :: 'a GentleChannel"
  have cap: "max_capacity ?d = 100"
    by (simp add: GentleChannel_default_def GentleChannel_new_def)
  have sends: "length vs \<le> 100 \<longrightarrow>
        send_all vs ?d
          = (replicate (length vs) (SendReturns True),
             \<lparr>chan_queue = vs, chan_closed = False, max_capacity = 100\<rparr>)"
  proof
    assume "length vs \<le> 100"
    then have "send_all vs ?d
        = (replicate (length vs) (SendReturns True), ?d\<lparr>chan_queue := chan_queue ?d @ vs\<rparr>)"
      by (intro send_all_open) (simp_all add: GentleChannel_default_def GentleChannel_new_def)
    then show "send_all vs ?d
          = (replicate (length vs) (SendReturns True),
             \<lparr>chan_queue = vs, chan_closed = False, max_capacity = 100\<rparr>)"
      by (simp add: GentleChannel_default_def GentleChannel_new_def)
  qed
  have iff: "fst (send_with_care v
              \<lparr>chan_queue = vs, chan_closed = False, max_capacity = 100\<rparr>) = SendReturns True
        \<longleftrightarrow> length vs < 100"
    by (simp add: send_with_care_def send_from_wait_def)
  have full: "length vs = 100 \<longrightarrow>
        send_with_care v (snd (send_all vs ?d))
          = (SendWaits, \<lparr>chan_queue = vs, chan_closed = False, max_capacity = 100\<rparr>)"
    using sends by (simp add: send_with_care_def send_from_wait_def)
  from cap sends iff full show ?thesis by blast
qed

theorem C10_default_capacity_is_100_witness:
  "length (replicate 100 (7 :: nat)) = 100
   \<and> send_all (replicate 100 (7 :: nat)) GentleChannel_default
       = (replicate 100 (SendReturns True),
          \<lparr>chan_queue = replicate 100 7, chan_closed = False, max_capacity = 100\<rparr>)
   \<and> send_with_care 8 (snd (send_all (replicate 100 (7 :: nat)) GentleChannel_default))
       = (SendWaits, \<lparr>chan_queue = replicate 100 7, chan_closed = False, max_capacity = 100\<rparr>)"
proof -
  have full: "length (replicate 100 (7 :: nat)) = 100" by (rule length_replicate)
  from C10_default_capacity_is_100 [of "replicate 100 (7 :: nat)" 8] full
  show ?thesis by (metis order_refl)
qed

section \<open>Properties of GentleMemoryPool\<close>

lemma block_address_plain:
  assumes "bs * n < 2 ^ 64" and "block_size p = bs" and "i < n"
  shows "block_address p base i = base + i * bs"
proof -
  from assms(3) have "i * bs \<le> n * bs" by (simp add: mult_le_mono1)
  also have "n * bs = bs * n" by (rule mult.commute)
  finally have "i * bs < 2 ^ 64" using assms(1) by linarith
  with assms(2) show ?thesis by (simp add: block_address_def)
qed

lemma slab_blocks:
  assumes "0 < bs" and "bs * n < 2 ^ 64" and "block_size p = bs"
  shows "distinct (map (block_address p base) [0 ..< n])"
    and "\<forall>a \<in> set (map (block_address p base) [0 ..< n]). base \<le> a \<and> a < base + bs * n"
proof -
  have eq: "map (block_address p base) [0 ..< n] = map (\<lambda>i. base + i * bs) [0 ..< n]"
    using block_address_plain [OF assms(2,3)] by (intro map_cong) auto
  have "inj_on (\<lambda>i. base + i * bs) (set [0 ..< n])"
    using assms(1) by (auto simp: inj_on_def)
  then show "distinct (map (block_address p base) [0 ..< n])"
    unfolding eq by (simp add: distinct_map)
  show "\<forall>a \<in> set (map (block_address p base) [0 ..< n]). base \<le> a \<and> a < base + bs * n"
    unfolding eq
  proof
    fix a assume "a \<in> set (map (\<lambda>i. base + i * bs) [0 ..< n])"
    then obtain i where i: "i < n" and a: "a = base + i * bs" by auto
    from i assms(1) have "i * bs < n * bs" by simp
    with a show "base \<le> a \<and> a < base + bs * n" by (simp add: mult.commute)
  qed
qed

lemma pool_inv_new:
  assumes "0 < bs" and "bs * n < 2 ^ 64"
  shows "pool_inv bs n (GentleMemoryPool_new bs n base, [])"
proof -
  let ?p0 = "\<lparr>pools = [], free_blocks = [], block_size = bs, blocks_per_pool = n\<rparr>"
  have bs0: "block_size ?p0 = bs" by simp
  note blocks = slab_blocks [OF assms bs0, of base]
  from blocks show ?thesis
    by (simp add: pool_inv_def GentleMemoryPool_new_def allocate_new_pool_def)
qed

lemma pool_inv_slab:
  assumes "0 < bs" and "bs * n < 2 ^ 64"
    and inv: "pool_inv bs n (p, outstanding)"
    and empty: "free_blocks p = []"
    and fresh: "fresh_slab p base"
  shows "pool_inv bs n (allocate_new_pool base p, outstanding)"
proof -
  from inv have bs: "block_size p = bs" and n: "blocks_per_pool p = n"
    and dist: "distinct outstanding"
    and owned: "\<forall>a \<in> set outstanding. \<exists>b \<in> set (pools p). b \<le> a \<and> a < b + bs * n"
    using empty by (simp_all add: pool_inv_def)
  let ?new = "map (block_address p base) [0 ..< n]"
  note blocks = slab_blocks [OF assms(1,2) bs, of base]
  from assms(2) bs n have bytes: "slab_bytes p = bs * n" by (simp add: slab_bytes_def)
  have apart: "set ?new \<inter> set outstanding = {}"
  proof (rule ccontr)
    assume "set ?new \<inter> set outstanding \<noteq> {}"
    then obtain a where new: "a \<in> set ?new" and out: "a \<in> set outstanding" by blast
    from blocks(2) new have in_new: "base \<le> a" "a < base + bs * n" by blast+
    from owned out obtain b where b: "b \<in> set (pools p)" "b \<le> a" "a < b + bs * n" by blast
    from fresh b(1) bytes have "base + bs * n \<le> b \<or> b + bs * n \<le> base"
      by (simp add: fresh_slab_def)
    with in_new b(2,3) show False by linarith
  qed
  have "distinct (?new @ outstanding)"
    using blocks(1) dist apart by simp
  moreover have "\<forall>a \<in> set (?new @ outstanding).
      \<exists>b \<in> set (pools p @ [base]). b \<le> a \<and> a < b + bs * n"
    using blocks(2) owned by auto
  ultimately show ?thesis
    using bs n empty by (simp add: pool_inv_def allocate_new_pool_def)
qed

lemma pool_inv_pop:
  assumes inv: "pool_inv bs n (p, outstanding)" and nonempty: "free_blocks p \<noteq> []"
  shows "pool_inv bs n
           (p\<lparr>free_blocks := butlast (free_blocks p)\<rparr>, last (free_blocks p) # outstanding)"
    and "last (free_blocks p) \<notin> set outstanding"
proof -
  from nonempty have split: "free_blocks p = butlast (free_blocks p) @ [last (free_blocks p)]"
    by simp
  from inv have dist: "distinct (free_blocks p @ outstanding)"
    by (simp add: pool_inv_def)
  then have dist': "distinct (butlast (free_blocks p) @ [last (free_blocks p)] @ outstanding)"
    using split by (metis append.assoc)
  then show "last (free_blocks p) \<notin> set outstanding" by simp
  from inv have owned: "\<forall>a \<in> set (free_blocks p @ outstanding).
      \<exists>b \<in> set (pools p). b \<le> a \<and> a < b + bs * n"
    by (simp add: pool_inv_def)
  have sets: "set (butlast (free_blocks p) @ last (free_blocks p) # outstanding)
      = set (free_blocks p @ outstanding)"
    using split by (metis append.assoc append_Cons append_Nil)
  from inv dist' owned sets
  show "pool_inv bs n
           (p\<lparr>free_blocks := butlast (free_blocks p)\<rparr>, last (free_blocks p) # outstanding)"
    by (simp add: pool_inv_def)
qed

lemma pool_inv_allocate:
  assumes "0 < bs" and "0 < n" and "bs * n < 2 ^ 64"
    and inv: "pool_inv bs n (p, outstanding)"
    and fresh: "free_blocks p = [] \<longrightarrow> fresh_slab p base"
  shows "\<exists>a p'. allocate_gently base p = Some (a, p')
             \<and> pool_inv bs n (p', a # outstanding) \<and> a \<notin> set outstanding"
proof -
  let ?p1 = "if free_blocks p = [] then allocate_new_pool base p else p"
  have inv1: "pool_inv bs n (?p1, outstanding)"
    using pool_inv_slab [OF assms(1,3) inv] fresh inv by simp
  have nonempty: "free_blocks ?p1 \<noteq> []"
  proof (cases "free_blocks p = []")
    case True
    from inv have "blocks_per_pool p = n" by (simp add: pool_inv_def)
    with True assms(2) show ?thesis by (simp add: allocate_new_pool_def)
  next
    case False
    then show ?thesis by simp
  qed
  have "allocate_gently base p
      = Some (last (free_blocks ?p1), ?p1\<lparr>free_blocks := butlast (free_blocks ?p1)\<rparr>)"
    using nonempty by (simp add: allocate_gently_def Let_def)
  with pool_inv_pop [OF inv1 nonempty] show ?thesis by blast
qed

lemma pool_inv_deallocate:
  assumes inv: "pool_inv bs n (p, outstanding)" and mine: "a \<in> set outstanding"
  shows "pool_inv bs n (deallocate_gently a p, remove1 a outstanding)"
proof -
  from inv have dist: "distinct (free_blocks p)" "distinct outstanding"
    "set (free_blocks p) \<inter> set outstanding = {}"
    by (simp_all add: pool_inv_def)
  from dist(2) have rest: "set (remove1 a outstanding) = set outstanding - {a}" by simp
  from dist mine rest
  have apart: "distinct ((free_blocks p @ [a]) @ remove1 a outstanding)" by auto
  from inv have owned: "\<forall>x \<in> set (free_blocks p @ outstanding).
      \<exists>b \<in> set (pools p). b \<le> x \<and> x < b + bs * n"
    by (simp add: pool_inv_def)
  have "set ((free_blocks p @ [a]) @ remove1 a outstanding)
      = set (free_blocks p @ outstanding)"
    using rest mine by auto
  with owned have owned': "\<forall>x \<in> set ((free_blocks p @ [a]) @ remove1 a outstanding).
      \<exists>b \<in> set (pools p). b \<le> x \<and> x < b + bs * n"
    by (simp only:)
  from inv have "block_size p = bs" and "blocks_per_pool p = n"
    by (simp_all add: pool_inv_def)
  with apart owned' show ?thesis
    unfolding pool_inv_def deallocate_gently_def by (simp del: set_append distinct_append)
qed

lemma pool_run_inv:
  assumes "0 < bs" and "0 < n" and "bs * n < 2 ^ 64"
  shows "disciplined cs s \<Longrightarrow> pool_inv bs n s \<Longrightarrow>
           \<exists>s'. pool_run cs s = Some s' \<and> pool_inv bs n s'"
proof (induction cs arbitrary: s)
  case Nil
  then show ?case by simp
next
  case (Cons c cs)
  obtain p outstanding where s: "s = (p, outstanding)" by (cases s)
  show ?case
  proof (cases c)
    case (Allocate base)
    from Cons.prems(1) s Allocate have fresh: "free_blocks p = [] \<longrightarrow> fresh_slab p base"
      by simp
    from pool_inv_allocate [OF assms Cons.prems(2) [unfolded s] fresh]
    obtain a p' where step: "allocate_gently base p = Some (a, p')"
      and inv': "pool_inv bs n (p', a # outstanding)" by blast
    from Cons.prems(1) s Allocate step have "disciplined cs (p', a # outstanding)" by simp
    from Cons.IH [OF this inv'] s Allocate step show ?thesis by simp
  next
    case (Deallocate a)
    from Cons.prems(1) s Deallocate have mine: "a \<in> set outstanding"
      and rest: "disciplined cs (deallocate_gently a p, remove1 a outstanding)"
      by simp_all
    from pool_inv_deallocate [OF Cons.prems(2) [unfolded s] mine]
    have "pool_inv bs n (deallocate_gently a p, remove1 a outstanding)" .
    from Cons.IH [OF rest this] s Deallocate show ?thesis by simp
  qed
qed

text \<open>
  C8, with the conditions under which it holds: the pool was built with a positive block
  size and a positive number of blocks per slab whose product fits \<^verbatim>\<open>size_t\<close>. After any
  history in which only outstanding addresses were given back, the outstanding addresses
  are pairwise distinct, and the next \<^verbatim>\<open>allocate_gently\<close> returns an address that is not
  outstanding: the last entry of the free list, which it removes; when the free list was
  empty, the last block of a new slab whose blocks were all appended first.
\<close>

theorem C8_outstanding_addresses_distinct:
  assumes "0 < bs" and "0 < n" and "bs * n < 2 ^ 64"
    and "disciplined cs (GentleMemoryPool_new bs n base0, [])"
  shows "\<exists>p outstanding.
           pool_run cs (GentleMemoryPool_new bs n base0, []) = Some (p, outstanding)
         \<and> distinct outstanding
         \<and> (\<forall>base. (free_blocks p = [] \<longrightarrow> fresh_slab p base) \<longrightarrow>
               (\<exists>a p'. allocate_gently base p = Some (a, p')
                  \<and> a \<notin> set outstanding
                  \<and> (free_blocks p \<noteq> [] \<longrightarrow>
                        a = last (free_blocks p)
                      \<and> p' = p\<lparr>free_blocks := butlast (free_blocks p)\<rparr>)
                  \<and> (free_blocks p = [] \<longrightarrow>
                        a = last (map (block_address p base) [0 ..< n])
                      \<and> free_blocks p' = butlast (map (block_address p base) [0 ..< n])
                      \<and> pools p' = pools p @ [base])))"
proof -
  from pool_run_inv [OF assms(1,2,3) assms(4) pool_inv_new [OF assms(1,3)]]
  obtain p outstanding
    where run: "pool_run cs (GentleMemoryPool_new bs n base0, []) = Some (p, outstanding)"
      and inv: "pool_inv bs n (p, outstanding)"
    by auto
  from inv have dist: "distinct outstanding" and n: "blocks_per_pool p = n"
    by (simp_all add: pool_inv_def)
  have next_one: "\<exists>a p'. allocate_gently base p = Some (a, p')
                  \<and> a \<notin> set outstanding
                  \<and> (free_blocks p \<noteq> [] \<longrightarrow>
                        a = last (free_blocks p)
                      \<and> p' = p\<lparr>free_blocks := butlast (free_blocks p)\<rparr>)
                  \<and> (free_blocks p = [] \<longrightarrow>
                        a = last (map (block_address p base) [0 ..< n])
                      \<and> free_blocks p' = butlast (map (block_address p base) [0 ..< n])
                      \<and> pools p' = pools p @ [base])"
    if fresh: "free_blocks p = [] \<longrightarrow> fresh_slab p base" for base
  proof -
    from pool_inv_allocate [OF assms(1,2,3) inv fresh]
    obtain a p' where step: "allocate_gently base p = Some (a, p')"
      and new: "a \<notin> set outstanding" by blast
    from step n assms(2) have shape:
      "free_blocks p \<noteq> [] \<longrightarrow>
         a = last (free_blocks p) \<and> p' = p\<lparr>free_blocks := butlast (free_blocks p)\<rparr>"
      "free_blocks p = [] \<longrightarrow>
         a = last (map (block_address p base) [0 ..< n])
       \<and> free_blocks p' = butlast (map (block_address p base) [0 ..< n])
       \<and> pools p' = pools p @ [base]"
      by (auto simp: allocate_gently_def allocate_new_pool_def Let_def split: if_splits)
    from step new shape show ?thesis by blast
  qed
  from run dist next_one show ?thesis by blast
qed

theorem C8_outstanding_addresses_distinct_witness:
  "(0 :: nat) < 16 \<and> 0 < Suc (Suc 0) \<and> 16 * Suc (Suc 0) < (2 :: nat) ^ 64
   \<and> disciplined [Allocate 0, Allocate 0, Allocate 8192, Deallocate 4096]
        (GentleMemoryPool_new 16 (Suc (Suc 0)) 4096, [])
   \<and> pool_run [Allocate 0, Allocate 0, Allocate 8192, Deallocate 4096]
        (GentleMemoryPool_new 16 (Suc (Suc 0)) 4096, [])
      = Some (\<lparr>pools = [4096, 8192], free_blocks = [8192, 4096], block_size = 16,
               blocks_per_pool = Suc (Suc 0)\<rparr>, [8208, 4112])
   \<and> distinct [8208, 4112 :: nat]
   \<and> allocate_gently 0 \<lparr>pools = [4096, 8192], free_blocks = [8192, 4096], block_size = 16,
                          blocks_per_pool = Suc (Suc 0)\<rparr>
      = Some (4096, \<lparr>pools = [4096, 8192], free_blocks = [8192], block_size = 16,
                     blocks_per_pool = Suc (Suc 0)\<rparr>)
   \<and> 4096 \<notin> set [8208, 4112 :: nat]"
proof -
  have sizes: "(0 :: nat) < 16" "0 < Suc (Suc 0)" "16 * Suc (Suc 0) < (2 :: nat) ^ 64"
    by simp_all
  have history: "disciplined [Allocate 0, Allocate 0, Allocate 8192, Deallocate 4096]
        (GentleMemoryPool_new 16 (Suc (Suc 0)) 4096, [])"
    by (simp add: GentleMemoryPool_new_def allocate_new_pool_def allocate_gently_def
          deallocate_gently_def block_address_def fresh_slab_def slab_bytes_def)
  have run: "pool_run [Allocate 0, Allocate 0, Allocate 8192, Deallocate 4096]
        (GentleMemoryPool_new 16 (Suc (Suc 0)) 4096, [])
      = Some (\<lparr>pools = [4096, 8192], free_blocks = [8192, 4096], block_size = 16,
               blocks_per_pool = Suc (Suc 0)\<rparr>, [8208, 4112])"
    by (simp add: GentleMemoryPool_new_def allocate_new_pool_def allocate_gently_def
          deallocate_gently_def block_address_def)
  from C8_outstanding_addresses_distinct [OF sizes history, of ] run
  have "\<exists>a p'. allocate_gently 0 \<lparr>pools = [4096, 8192], free_blocks = [8192, 4096],
                   block_size = 16, blocks_per_pool = Suc (Suc 0)\<rparr> = Some (a, p')
          \<and> a \<notin> set [8208, 4112]
          \<and> a = 4096
          \<and> p' = \<lparr>pools = [4096, 8192], free_blocks = [8192], block_size = 16,
                    blocks_per_pool = Suc (Suc 0)\<rparr>"
    by fastforce
  with sizes history run show ?thesis by auto
qed

text \<open>
  A pool of blocks of size zero hands the same address to two clients: every block of a
  slab then has the slab's base address. No address is given back in this history.
\<close>

theorem C8_zero_block_size_counterexample:
  "disciplined [Allocate 0, Allocate 0] (GentleMemoryPool_new 0 (Suc (Suc 0)) 4096, [])
   \<and> pool_run [Allocate 0, Allocate 0] (GentleMemoryPool_new 0 (Suc (Suc 0)) 4096, [])
      = Some (\<lparr>pools = [4096], free_blocks = [], block_size = 0,
               blocks_per_pool = Suc (Suc 0)\<rparr>, [4096, 4096])
   \<and> \<not> distinct [4096, 4096 :: nat]"
  by (simp add: GentleMemoryPool_new_def allocate_new_pool_def allocate_gently_def
        block_address_def fresh_slab_def slab_bytes_def)

text \<open>
  C9. The free list is a stack. In every pool state, \<^verbatim>\<open>deallocate_gently\<close> of an address
  followed at once by \<^verbatim>\<open>allocate_gently\<close> returns that address, and the pool is back in
  the state before the two calls (no slab is created, whatever the system allocator
  would have offered).
\<close>

theorem C9_deallocate_then_allocate_returns_same:
  "allocate_gently base (deallocate_gently ptr p) = Some (ptr, p)"
  by (simp add: allocate_gently_def deallocate_gently_def)

section \<open>Properties of GentleTask and GentleScheduler\<close>

lemma coroutine_resume_returns: "\<exists>f out. coroutine_resume k = Inr (f, out)"
  by (cases k) simp_all

lemma resume_gently_never_throws: "resume_gently t \<noteq> Throws e"
proof (cases "handle t")
  case None
  then show ?thesis by (simp add: resume_gently_def)
next
  case (Some f)
  show ?thesis
  proof (cases f)
    case Dangling
    with Some show ?thesis by (simp add: resume_gently_def)
  next
    case (Suspended k)
    from coroutine_resume_returns [of k] obtain f' out
      where "coroutine_resume k = Inr (f', out)" by blast
    with Some Suspended show ?thesis by (simp add: resume_gently_def)
  qed
qed

text \<open>
  What a pass of the worker loop does whenever its behaviour is defined: it takes the last
  entry of \<^verbatim>\<open>tasks_\<close>; the task, after \<^verbatim>\<open>resume_gently\<close>, is pushed back if \<^verbatim>\<open>is_done\<close>
  returns false, and is counted (\<^verbatim>\<open>active_tasks_\<close> down by one, \<^verbatim>\<open>total_tasks_completed_\<close>
  up by one) if it returns true.
\<close>

lemma worker_pass_defined:
  assumes ran: "worker_pass s = Ran s'" and last: "last (tasks s) = Some task"
  shows "\<exists>task' out d.
           resume_gently task = Returns (task', out)
         \<and> is_done task' = Some d
         \<and> tasks s' = (if d then butlast (tasks s) else butlast (tasks s) @ [Some task'])
         \<and> active_tasks s' = (if d then active_tasks s - 1 else active_tasks s)
         \<and> total_tasks_completed s'
             = (if d then total_tasks_completed s + 1 else total_tasks_completed s)
         \<and> total_tasks_created s' = total_tasks_created s"
proof -
  from ran have go: "\<not> should_stop s" "tasks s \<noteq> []"
    by (auto simp: worker_pass_def split: if_splits)
  show ?thesis
  proof (cases "resume_gently task")
    case Undefined_behaviour
    with ran go last show ?thesis by (simp add: worker_pass_def Let_def)
  next
    case (Throws e)
    with ran go last show ?thesis by (simp add: worker_pass_def Let_def)
  next
    case (Returns r)
    obtain task' out where r: "r = (task', out)" by (cases r)
    show ?thesis
    proof (cases "is_done task'")
      case None
      with ran go last Returns r show ?thesis by (simp add: worker_pass_def Let_def)
    next
      case (Some d)
      show ?thesis
      proof (cases d)
        case True
        with ran go last Returns r Some
        have "s' = s\<lparr>tasks := butlast (tasks s),
                      console := console s @ out @ [TaskCompleted (task_name task')],
                      active_tasks := active_tasks s - 1,
                      total_tasks_completed := total_tasks_completed s + 1\<rparr>"
          by (auto simp: worker_pass_def Let_def)
        with Returns r Some True show ?thesis
          by (intro exI [of _ task'] exI [of _ out] exI [of _ True]) simp
      next
        case False
        with ran go last Returns r Some
        have "s' = s\<lparr>tasks := butlast (tasks s) @ [Some task'],
                      console := console s @ out\<rparr>"
          by (auto simp: worker_pass_def Let_def)
        with Returns r Some False show ?thesis
          by (intro exI [of _ task'] exI [of _ out] exI [of _ False]) simp
      qed
    qed
  qed
qed

lemma worker_pass_null_handle:
  assumes "\<not> should_stop s" and "tasks s = rest @ [Some task]" and "handle task = None"
  shows "worker_pass s
           = Ran (s\<lparr>tasks := rest,
                    active_tasks := active_tasks s - 1,
                    total_tasks_completed := total_tasks_completed s + 1,
                    console := console s @ [TaskCompleted (task_name task)]\<rparr>)"
  using assms by (simp add: worker_pass_def resume_gently_def is_done_def Let_def)

lemma worker_pass_pausing:
  assumes "\<not> should_stop s" and "tasks s = rest @ [Some task]"
    and "handle task = Some (Suspended (Pause k))"
  shows "worker_pass s = Ran (s\<lparr>tasks := rest @ [Some (task\<lparr>handle := Some (Suspended k)\<rparr>)]\<rparr>)"
  using assms by (simp add: worker_pass_def resume_gently_def is_done_def Let_def)

text \<open>
  C6 fails on the code when the task taken from the queue end finishes at this resume.
  The queue holds \<open>early\<close>, which will pause once more, and \<open>late\<close>, whose continuation runs to
  its end. The worker takes \<open>late\<close> and \<^verbatim>\<open>resume_gently\<close> returns; the coroutine has ended
  and, \<^verbatim>\<open>final_suspend\<close> being \<^verbatim>\<open>suspend_never\<close>, its frame is gone. \<^verbatim>\<open>is_done\<close> then calls
  \<^verbatim>\<open>handle_.done()\<close> on the dangling handle: the pass has undefined behaviour, where the
  claim has the finished task counted.
\<close>

theorem C6_pass_on_finishing_task_is_undefined:
  "resume_gently \<lparr>handle = Some (Suspended Finish), task_name = ''late''\<rparr>
     = Returns (\<lparr>handle = Some Dangling, task_name = ''late''\<rparr>, [])
   \<and> is_done \<lparr>handle = Some Dangling, task_name = ''late''\<rparr> = None
   \<and> worker_pass
        \<lparr>tasks = [Some \<lparr>handle = Some (Suspended (Pause Finish)), task_name = ''early''\<rparr>,
                  Some \<lparr>handle = Some (Suspended Finish), task_name = ''late''\<rparr>],
         should_stop = False, active_tasks = 2, total_tasks_created = 2,
         total_tasks_completed = 0, console = []\<rparr>
     = Undefined"
  by (simp add: worker_pass_def resume_gently_def is_done_def Let_def)

text \<open>
  C5 fails on the code. A continuation that throws at its resume: the promise's
  \<^verbatim>\<open>unhandled_exception\<close> prints its line and \<^verbatim>\<open>resume_gently\<close> returns, so far as the
  claim says. But the coroutine then runs through \<^verbatim>\<open>final_suspend\<close>, which does not
  suspend, and its frame is destroyed: the task is left with a dangling handle, not in a
  done or failed state. \<^verbatim>\<open>is_done\<close> on it, which the worker calls next, has undefined
  behaviour, and so has every later \<^verbatim>\<open>resume_gently\<close>; the worker's pass is not contained.
\<close>

theorem C5_failing_task_is_left_with_dangling_handle:
  "resume_gently \<lparr>handle = Some (Suspended (Raise (StdException ''boom''))), task_name = ''t2''\<rparr>
     = Returns (\<lparr>handle = Some Dangling, task_name = ''t2''\<rparr>, [CoroutineProblem])
   \<and> is_done \<lparr>handle = Some Dangling, task_name = ''t2''\<rparr> = None
   \<and> resume_gently \<lparr>handle = Some Dangling, task_name = ''t2''\<rparr> = Undefined_behaviour
   \<and> worker_pass
        \<lparr>tasks = [Some \<lparr>handle = Some (Suspended (Pause Finish)), task_name = ''t1''\<rparr>,
                  Some \<lparr>handle = Some (Suspended (Raise (StdException ''boom''))),
                        task_name = ''t2''\<rparr>],
         should_stop = False, active_tasks = 2, total_tasks_created = 2,
         total_tasks_completed = 0, console = []\<rparr>
     = Undefined"
  by (simp add: worker_pass_def resume_gently_def is_done_def unhandled_exception_def Let_def)

subsection \<open>The counters under interleaving\<close>

lemma sum_list_at:
  "i < length ws \<Longrightarrow>
     sum_list (map f ws)
       = sum_list (map f (take i ws)) + f (ws ! i) + sum_list (map f (drop (Suc i) ws))"
proof -
  assume "i < length ws"
  then have "ws = take i ws @ ws ! i # drop (Suc i) ws" by (rule id_take_nth_drop)
  then have "sum_list (map f ws) = sum_list (map f (take i ws @ ws ! i # drop (Suc i) ws))"
    by simp
  then show ?thesis by (simp add: add.assoc)
qed

lemma sum_list_at_update:
  "i < length ws \<Longrightarrow>
     sum_list (map f (ws[i := w]))
       = sum_list (map f (take i ws)) + f w + sum_list (map f (drop (Suc i) ws))"
  by (simp add: upd_conv_take_nth_drop add.assoc)

lemma counters_agree_work:
  assumes agree: "counters_agree (s, ws)" and i: "i < length ws"
    and step: "worker_step (s, ws ! i) = Next (s', w')"
  shows "counters_agree (s', ws[i := w'])"
proof -
  note at = sum_list_at [OF i] sum_list_at_update [OF i]
  show ?thesis
  proof (cases "ws ! i")
    case AtTop
    with step agree show ?thesis
      by (auto simp: counters_agree_def at split: if_splits option.splits)
  next
    case (Took t)
    with step agree show ?thesis
      by (auto simp: counters_agree_def at split: result.splits)
  next
    case (Resumed t)
    with step agree show ?thesis
      by (auto simp: counters_agree_def at split: option.splits bool.splits)
  next
    case (Decremented t)
    with step agree show ?thesis
      by (auto simp: counters_agree_def at)
  next
    case Left
    with step show ?thesis by simp
  qed
qed

lemma counters_agree_step:
  assumes "counters_agree c" and "sched_step e c = Next c'"
  shows "counters_agree c'"
proof -
  obtain s ws where c: "c = (s, ws)" by (cases c)
  show ?thesis
  proof (cases e)
    case (Spawn t)
    with assms c show ?thesis
      by (auto simp: counters_agree_def spawn_gently_def)
  next
    case RequestStop
    with assms c show ?thesis
      by (auto simp: counters_agree_def)
  next
    case (Work i)
    with assms(2) c have i: "i < length ws" by (simp split: if_splits)
    with assms(2) c Work obtain s' w' where
      step: "worker_step (s, ws ! i) = Next (s', w')" and c': "c' = (s', ws[i := w'])"
      by (auto split: step.splits)
    from counters_agree_work [OF assms(1) [unfolded c] i step] c' show ?thesis by simp
  qed
qed

lemma counters_agree_run:
  "counters_agree c \<Longrightarrow> sched_run es c = Next c' \<Longrightarrow> counters_agree c'"
proof (induction es arbitrary: c)
  case Nil
  then show ?case by simp
next
  case (Cons e es)
  from Cons.prems(2) obtain c1 where step: "sched_step e c = Next c1"
    and rest: "sched_run es c1 = Next c'"
    by (auto split: step.splits)
  from Cons.IH [OF counters_agree_step [OF Cons.prems(1) step] rest] show ?case .
qed

lemma counters_agree_start: "counters_agree (GentleScheduler_new, replicate k AtTop)"
  by (induction k) (simp_all add: counters_agree_def GentleScheduler_new_def)

text \<open>
  What does hold in every state the scheduler reaches with \<open>k\<close> workers: when the poll of
  \<^verbatim>\<open>await_all_with_patience\<close> reads zero, the created counter exceeds the completed
  counter by the number of workers that stand between the two counter updates. The two
  agree as soon as no worker stands there.
\<close>

lemma await_all_counters:
  assumes "sched_run es (GentleScheduler_new, replicate k AtTop) = Next (s, ws)"
    and "await_all_returns s"
  shows "active_tasks s = 0"
    and "total_tasks_created s = total_tasks_completed s + of_nat (sum_list (map uncounted ws))"
proof -
  from counters_agree_run [OF counters_agree_start assms(1)]
  have agree: "counters_agree (s, ws)" .
  from assms(2) show zero: "active_tasks s = 0"
    by (simp add: await_all_returns_def word_greater_zero_iff)
  with agree
  show "total_tasks_created s = total_tasks_completed s + of_nat (sum_list (map uncounted ws))"
    by (simp add: counters_agree_def)
qed

text \<open>
  C4 fails on the code. One worker, one spawned task whose handle is null (for such a
  task \<^verbatim>\<open>resume_gently\<close> does nothing and \<^verbatim>\<open>is_done\<close> is true). The worker pops the task,
  calls \<^verbatim>\<open>resume_gently\<close>, finds it done and decrements \<^verbatim>\<open>active_tasks_\<close>. At this point
  the poll of \<^verbatim>\<open>await_all_with_patience\<close> reads zero and the function returns, while
  \<^verbatim>\<open>total_tasks_completed_\<close> is still 0 and \<^verbatim>\<open>total_tasks_created_\<close> is 1. Only the
  worker's next step brings the completed counter to 1.
\<close>

theorem C4_await_all_returns_before_completion_is_counted:
  "sched_run [Spawn (Some \<lparr>handle = None, task_name = ''t''\<rparr>), Work 0, Work 0, Work 0]
     (GentleScheduler_new, [AtTop])
   = Next (\<lparr>tasks = [], should_stop = False, active_tasks = 0, total_tasks_created = 1,
            total_tasks_completed = 0, console = []\<rparr>,
           [Decremented \<lparr>handle = None, task_name = ''t''\<rparr>])
   \<and> await_all_returns
        \<lparr>tasks = [], should_stop = False, active_tasks = 0, total_tasks_created = 1,
         total_tasks_completed = 0, console = []\<rparr>
   \<and> total_tasks_completed
        \<lparr>tasks = [], should_stop = False, active_tasks = 0, total_tasks_created = 1,
         total_tasks_completed = 0, console = []\<rparr>
     \<noteq> total_tasks_created
        \<lparr>tasks = [], should_stop = False, active_tasks = 0, total_tasks_created = 1,
         total_tasks_completed = 0, console = []\<rparr>
   \<and> sched_step (Work 0)
        (\<lparr>tasks = [], should_stop = False, active_tasks = 0, total_tasks_created = 1,
          total_tasks_completed = 0, console = []\<rparr>,
         [Decremented \<lparr>handle = None, task_name = ''t''\<rparr>])
     = Next (\<lparr>tasks = [], should_stop = False, active_tasks = 0, total_tasks_created = 1,
              total_tasks_completed = 1, console = [TaskCompleted ''t'']\<rparr>, [AtTop])"
  by (simp add: GentleScheduler_new_def spawn_gently_def resume_gently_def is_done_def
        await_all_returns_def)

end
